theory Spec2Isabelle
  imports Main "HOL-Library.Word"
begin

unbundle bit_operations_syntax

section \<open>Platform and constants\<close>

text \<open>
  The library is written for 8-bit Arduino boards (\<^verbatim>\<open>Arduino.h\<close>, \<^verbatim>\<open>EEPROM.h\<close>):
  \<^verbatim>\<open>char\<close> is a signed byte, \<^verbatim>\<open>int\<close> and \<^verbatim>\<open>unsigned int\<close> have 16 bits,
  \<^verbatim>\<open>long\<close> and \<^verbatim>\<open>uint32_t\<close> have 32 bits.  A \<^verbatim>\<open>char\<close> array is a
  \<open>char list\<close>; a \<^verbatim>\<open>char*\<close> into it is an offset.  A function that reads or writes
  memory returns \<open>None\<close> when it would leave the array (undefined behaviour in C++).
\<close>

type_synonym uint = "16 word"
type_synonym uint32_t = "32 word"

definition COMMAND_SIZE_MAX :: nat where
  "COMMAND_SIZE_MAX = 150"

definition EEPROM_SIZE_MAX :: nat where
  "EEPROM_SIZE_MAX = 256"

definition EEPROM_STORED_COMMAND_FLAG_LOCATION :: nat where
  "EEPROM_STORED_COMMAND_FLAG_LOCATION = 0"

text \<open>\<^verbatim>\<open>EEPROM_STORED_COMMAND_FLAG_LOCATION + sizeof(bool)\<close>\<close>

definition EEPROM_STORED_COMMAND_LOCATION :: nat where
  "EEPROM_STORED_COMMAND_LOCATION = EEPROM_STORED_COMMAND_FLAG_LOCATION + 1"

datatype CommandHandlerReturn =
    NO_ERROR
  | COMMAND_NOT_FOUND
  | WRONG_NUM_OF_PARAMS
  | ERROR_PARSING_COMMAND
  | EMPTY_COMMAND_STRING
  | NO_COMMAND_WAITING
  | MALLOC_ERROR
  | OUT_OF_MEM
  | BUFFER_FULL
  | COMMAND_TOO_LONG
  | EEPROM_FULL
  | UNKNOWN_ERROR

abbreviation NUL :: char where "NUL \<equiv> CHR 0x00"
abbreviation TAB :: char where "TAB \<equiv> CHR 0x09"
abbreviation NEWLINE :: char where "NEWLINE \<equiv> CHR 0x0A"
abbreviation CR :: char where "CR \<equiv> CHR 0x0D"
abbreviation SPACE :: char where "SPACE \<equiv> CHR '' ''"

text \<open>A \<^verbatim>\<open>char*\<close> result: the null pointer, or an offset from \<^verbatim>\<open>_theCommand\<close>.\<close>

datatype ptr = NULL | Ptr nat

text \<open>
  The C string a pointer denotes: the bytes from the offset up to the first NUL.
  \<open>None\<close> when there is no NUL before the end of the array.
\<close>

fun c_str :: "char list \<Rightarrow> string option" where
  "c_str [] = None"
| "c_str (c # cs) = (if c = NUL then Some [] else map_option ((#) c) (c_str cs))"

definition c_str_at :: "char list \<Rightarrow> nat \<Rightarrow> string option" where
  "c_str_at buf p = c_str (drop p buf)"

section \<open>ParameterLookup\<close>

text \<open>
  \<open>theCommand\<close> is the array \<^verbatim>\<open>_theCommand\<close> points to (the view does not own it; the
  caller reads it back from the view when the view is done), \<open>endOfString\<close> the offset of
  \<^verbatim>\<open>_endOfString\<close>.
\<close>

record ParameterLookup =
  theCommand :: "char list"
  endOfString :: nat
  stringHasNULLS :: bool
  size' :: uint

text \<open>
  The loop of \<^verbatim>\<open>subSpacesForNULL\<close>: \<open>loop\<close> is the offset of the pointer \<^verbatim>\<open>loop\<close>,
  \<open>sz\<close> is \<^verbatim>\<open>_size\<close>.  It returns the array, the offset of the terminator and the count.
\<close>

function subSpaces_loop :: "char list \<Rightarrow> nat \<Rightarrow> uint \<Rightarrow> (char list \<times> nat \<times> uint) option" where
  "subSpaces_loop buf loop sz =
     (if length buf \<le> loop then None
      else if buf ! loop = NUL then Some (buf, loop, sz)
      else if buf ! loop = SPACE \<or> buf ! loop = TAB then
        subSpaces_loop (buf[loop := NUL]) (Suc loop)
          (if 0 < loop \<and> buf ! (loop - 1) \<noteq> NUL then sz + 1 else sz)
      else subSpaces_loop buf (Suc loop) sz)"
  by pat_completeness auto
termination
  by (relation "measure (\<lambda>(buf, loop, sz). length buf - loop)") auto

definition subSpacesForNULL :: "ParameterLookup \<Rightarrow> ParameterLookup option" where
  "subSpacesForNULL v =
     (case subSpaces_loop (theCommand v) 0 1 of
        None \<Rightarrow> None
      | Some (buf, loop, sz) \<Rightarrow>
          Some (v\<lparr>theCommand := buf, size' := sz, endOfString := loop, stringHasNULLS := True\<rparr>))"

text \<open>
  The constructor.  \<^verbatim>\<open>_endOfString\<close> and \<^verbatim>\<open>_size\<close> are not initialised before
  \<^verbatim>\<open>subSpacesForNULL\<close> assigns them; the model starts them at 0.
\<close>

definition ParameterLookup_ctor :: "char list \<Rightarrow> ParameterLookup option" where
  "ParameterLookup_ctor commandStr =
     subSpacesForNULL
       \<lparr>theCommand = commandStr, endOfString = 0, stringHasNULLS = False, size' = 0\<rparr>"

text \<open>The loop of \<^verbatim>\<open>restoreSpaces\<close>.\<close>

function restoreSpaces_loop :: "char list \<Rightarrow> nat \<Rightarrow> nat \<Rightarrow> char list option" where
  "restoreSpaces_loop buf eos loop =
     (if loop < eos then
        (if length buf \<le> loop then None
         else restoreSpaces_loop (if buf ! loop = NUL then buf[loop := SPACE] else buf) eos (Suc loop))
      else Some buf)"
  by pat_completeness auto
termination
  by (relation "measure (\<lambda>(buf, eos, loop). eos - loop)") auto

definition restoreSpaces :: "ParameterLookup \<Rightarrow> ParameterLookup option" where
  "restoreSpaces v =
     (case restoreSpaces_loop (theCommand v) (endOfString v) 0 of
        None \<Rightarrow> None
      | Some buf \<Rightarrow> Some (v\<lparr>theCommand := buf, stringHasNULLS := False\<rparr>))"

text \<open>
  The loop of \<^verbatim>\<open>getParamPtr\<close>.  \<open>count\<close> is a C \<^verbatim>\<open>int\<close>; it only ever decreases, at most
  once per byte of the array, so the model uses an unbounded integer.
\<close>

function getParamPtr_loop :: "char list \<Rightarrow> nat \<Rightarrow> nat \<Rightarrow> int \<Rightarrow> ptr option" where
  "getParamPtr_loop buf eos paramPtr count =
     (if paramPtr < eos then
        (if length buf \<le> paramPtr then None
         else if count = 0 \<and> buf ! paramPtr \<noteq> NUL then Some (Ptr paramPtr)
         else getParamPtr_loop buf eos (Suc paramPtr)
                (if buf ! paramPtr = NUL \<and> 0 < paramPtr \<and> buf ! (paramPtr - 1) \<noteq> NUL
                 then count - 1 else count))
      else Some NULL)"
  by pat_completeness auto
termination
  by (relation "measure (\<lambda>(buf, eos, paramPtr, count). eos - paramPtr)") auto

definition getParamPtr :: "ParameterLookup \<Rightarrow> int \<Rightarrow> (ptr \<times> ParameterLookup) option" where
  "getParamPtr v idx =
     (case (if \<not> stringHasNULLS v then subSpacesForNULL v else Some v) of
        None \<Rightarrow> None
      | Some v1 \<Rightarrow>
          (case getParamPtr_loop (theCommand v1) (endOfString v1) 0 idx of
             None \<Rightarrow> None
           | Some p \<Rightarrow> Some (p, v1)))"

text \<open>
  \<^verbatim>\<open>operator[]\<close>.  It is declared \<^verbatim>\<open>const\<close> but casts the constness away and changes
  the array, so the model returns the view as well as the pointer.
\<close>

definition operator_idx :: "ParameterLookup \<Rightarrow> int \<Rightarrow> (ptr \<times> ParameterLookup) option" where
  "operator_idx v idx =
     (if idx = - 1 then
        (if stringHasNULLS v then map_option (Pair (Ptr 0)) (restoreSpaces v)
         else Some (Ptr 0, v))
      else if idx = - 2 then
        (case getParamPtr v 1 of
           None \<Rightarrow> None
         | Some (p, v1) \<Rightarrow> map_option (Pair p) (restoreSpaces v1))
      else
        (case (if \<not> stringHasNULLS v then subSpacesForNULL v else Some v) of
           None \<Rightarrow> None
         | Some v1 \<Rightarrow> getParamPtr v1 idx))"

text \<open>The string a caller reads through a returned pointer (\<open>None\<close>: the null pointer).\<close>

definition deref :: "ParameterLookup \<Rightarrow> ptr \<Rightarrow> string option option" where
  "deref v p =
     (case p of
        NULL \<Rightarrow> Some None
      | Ptr a \<Rightarrow> map_option Some (c_str_at (theCommand v) a))"

text \<open>One query as its caller sees it: \<^verbatim>\<open>params[idx]\<close>, then the string read at once.\<close>

definition ask :: "ParameterLookup \<Rightarrow> int \<Rightarrow> (string option \<times> ParameterLookup) option" where
  "ask params idx =
     (case operator_idx params idx of
        None \<Rightarrow> None
      | Some (p, params1) \<Rightarrow> map_option (\<lambda>str. (str, params1)) (deref params1 p))"

text \<open>A sequence of indexed queries on one view, the results discarded.\<close>

fun queries :: "ParameterLookup \<Rightarrow> int list \<Rightarrow> ParameterLookup option" where
  "queries v [] = Some v"
| "queries v (idx # idxs) =
     (case operator_idx v idx of None \<Rightarrow> None | Some (p, v1) \<Rightarrow> queries v1 idxs)"

text \<open>
  A view is constructed over \<open>commandStr\<close>, queried at each index of \<open>idxs\<close> in turn,
  and then at \<open>idx\<close>: the string this last query returns.
\<close>

definition query_after :: "char list \<Rightarrow> int list \<Rightarrow> int \<Rightarrow> string option option" where
  "query_after commandStr idxs idx =
     (case ParameterLookup_ctor commandStr of
        None \<Rightarrow> None
      | Some v \<Rightarrow>
          (case queries v idxs of None \<Rightarrow> None | Some v1 \<Rightarrow> map_option fst (ask v1 idx)))"

section \<open>The hash\<close>

text \<open>The integral promotion of a \<^verbatim>\<open>char\<close> (signed, 8 bits).\<close>

definition char_to_int :: "char \<Rightarrow> int" where
  "char_to_int c = sint (of_char c :: 8 word)"

text \<open>\<^verbatim>\<open>tolower\<close> of the C library, on \<^verbatim>\<open>int\<close>: only 'A'..'Z' change.\<close>

definition tolower :: "int \<Rightarrow> int" where
  "tolower k = (if 65 \<le> k \<and> k \<le> 90 then k + 32 else k)"

text \<open>The inner loop of \<^verbatim>\<open>crc32b\<close>, \<open>j\<close> iterations left.\<close>

fun crc32b_bits :: "nat \<Rightarrow> uint32_t \<Rightarrow> uint32_t" where
  "crc32b_bits 0 crc = crc"
| "crc32b_bits (Suc j) crc =
     (let mask = - (crc AND 1) in crc32b_bits j (drop_bit 1 crc XOR (0xEDB88320 AND mask)))"

text \<open>The outer loop; \<open>str\<close> is the memory from \<^verbatim>\<open>str + i\<close> on.\<close>

fun crc32b_loop :: "char list \<Rightarrow> uint32_t \<Rightarrow> uint32_t option" where
  "crc32b_loop [] crc = None"
| "crc32b_loop (c # str) crc =
     (if c = NUL then Some crc
      else (let byte = word_of_int (tolower (char_to_int c))
            in crc32b_loop str (crc32b_bits 8 (crc XOR byte))))"

definition crc32b :: "char list \<Rightarrow> uint32_t option" where
  "crc32b str = map_option NOT (crc32b_loop str 0xFFFFFFFF)"

section \<open>Command functions\<close>

text \<open>
  \<^verbatim>\<open>typedef void commandFunction(const ParameterLookup& params)\<close>.  A command function
  changes the world outside the handler (of type \<open>'w\<close>) and reads its parameters through
  the public interface of the view: \<^verbatim>\<open>params[idx]\<close>, where it gets the C string at the
  returned pointer or learns that the pointer is null, and \<^verbatim>\<open>params.size()\<close>.  Started
  in a world it yields such a sequence of accesses, each continuing with the answer,
  and ends with the world it leaves.
\<close>

datatype 'w access =
    Return 'w
  | Index int "string option \<Rightarrow> 'w access"
  | Size "uint \<Rightarrow> 'w access"

type_synonym 'w commandFunction = "'w \<Rightarrow> 'w access"

text \<open>The call \<^verbatim>\<open>f(params)\<close>: the accesses run against the view, which they change.\<close>

primrec call :: "'w access \<Rightarrow> ParameterLookup \<Rightarrow> ('w \<times> ParameterLookup) option" where
  "call (Return w) params = Some (w, params)"
| "call (Index idx k) params =
     (case ask params idx of
        None \<Rightarrow> None
      | Some (str, params1) \<Rightarrow> call (k str) params1)"
| "call (Size k) params = call (k (size' params)) params"

section \<open>CommandLookup\<close>

text \<open>\<open>d_n\<close> is an \<^verbatim>\<open>int\<close>: \<open>sint\<close> reads it.\<close>

record 'w dataStruct =
  d_hash :: uint32_t
  d_n :: "16 word"
  d_f :: "'w commandFunction"

text \<open>
  \<^verbatim>\<open>_commands\<close> and \<^verbatim>\<open>_commandsIdx\<close> are the list of the entries stored so far, in the
  order of registration; \<open>array_size\<close> is the template argument.
\<close>

definition registerCommand ::
  "nat \<Rightarrow> 'w dataStruct list \<Rightarrow> uint32_t \<Rightarrow> 16 word \<Rightarrow> 'w commandFunction
    \<Rightarrow> CommandHandlerReturn \<times> 'w dataStruct list" where
  "registerCommand array_size commands keyHash num_of_parameters pointer_to_function =
     (if array_size \<le> length commands then (OUT_OF_MEM, commands)
      else (NO_ERROR,
            commands @ [\<lparr>d_hash = keyHash, d_n = num_of_parameters, d_f = pointer_to_function\<rparr>]))"

text \<open>The search loop of \<^verbatim>\<open>callStoredCommand\<close>; the result is \<^verbatim>\<open>foundIdx\<close>.\<close>

function search_loop :: "uint32_t \<Rightarrow> 'w dataStruct list \<Rightarrow> nat \<Rightarrow> int" where
  "search_loop reqHash commands i =
     (if i < length commands then
        (if reqHash = d_hash (commands ! i) then int i
         else search_loop reqHash commands (Suc i))
      else - 1)"
  by pat_completeness auto
termination
  by (relation "measure (\<lambda>(reqHash, commands, i). length commands - i)") auto

text \<open>
  \<^verbatim>\<open>callStoredCommand\<close>.  \<^verbatim>\<open>crc32b(params[0])\<close> reads through the pointer it is given:
  on the null pointer that is undefined.  In \<^verbatim>\<open>d.n != params.size() - 1\<close> the \<^verbatim>\<open>int\<close>
  is converted to \<^verbatim>\<open>unsigned int\<close>, so both sides are compared as 16-bit words.
\<close>

definition callStoredCommand ::
  "'w dataStruct list \<Rightarrow> ParameterLookup \<Rightarrow> 'w
    \<Rightarrow> (CommandHandlerReturn \<times> ParameterLookup \<times> 'w) option" where
  "callStoredCommand commands params w =
     (case operator_idx params 0 of
        None \<Rightarrow> None
      | Some (NULL, params1) \<Rightarrow> None
      | Some (Ptr a, params1) \<Rightarrow>
          (case crc32b (drop a (theCommand params1)) of
             None \<Rightarrow> None
           | Some reqHash \<Rightarrow>
               (let foundIdx = search_loop reqHash commands 0 in
                if foundIdx = - 1 then Some (COMMAND_NOT_FOUND, params1, w)
                else
                  (let d = commands ! nat foundIdx in
                   if d_n d \<noteq> size' params1 - 1 \<and> d_n d \<noteq> - 1
                   then Some (WRONG_NUM_OF_PARAMS, params1, w)
                   else
                     (case call (d_f d w) params1 of
                        None \<Rightarrow> None
                      | Some (w', params2) \<Rightarrow> Some (NO_ERROR, params2, w'))))))"

section \<open>CommandHandler\<close>

record 'w CommandHandler =
  lookupList :: "'w dataStruct list"
  bufferFull :: bool
  inputBuffer :: "char list"
  bufferLength :: uint
  command_too_long :: bool

text \<open>
  The constructor; \<open>mem\<close> is what the \<^verbatim>\<open>COMMAND_SIZE_MAX + 1\<close> bytes of
  \<^verbatim>\<open>_inputBuffer\<close> hold before it runs.
\<close>

definition CommandHandler_ctor :: "char list \<Rightarrow> 'w CommandHandler" where
  "CommandHandler_ctor mem =
     \<lparr>lookupList = [], bufferFull = False, inputBuffer = mem[0 := NUL],
      bufferLength = 0, command_too_long = False\<rparr>"

definition commandWaiting :: "'w CommandHandler \<Rightarrow> bool" where
  "commandWaiting s = bufferFull s"

definition clearBuffer :: "'w CommandHandler \<Rightarrow> 'w CommandHandler" where
  "clearBuffer s =
     s\<lparr>bufferFull := False, command_too_long := False,
       inputBuffer := (inputBuffer s)[0 := NUL], bufferLength := 0\<rparr>"

text \<open>
  \<^verbatim>\<open>addCommandChar\<close>.  The newline branch sets the flag and has no \<^verbatim>\<open>return\<close> of
  its own: control leaves the \<^verbatim>\<open>if\<close> chain and reaches the last statement of the
  function, \<^verbatim>\<open>return CommandHandlerReturn::UNKNOWN_ERROR\<close>.  In the last branch the
  guard leaves \<^verbatim>\<open>_bufferLength\<close> below \<^verbatim>\<open>COMMAND_SIZE_MAX - 1\<close>, so both writes stay
  inside the array.
\<close>

definition addCommandChar :: "char \<Rightarrow> 'w CommandHandler \<Rightarrow> CommandHandlerReturn \<times> 'w CommandHandler" where
  "addCommandChar c s =
     (if bufferFull s then (BUFFER_FULL, s)
      else if c = NEWLINE then (UNKNOWN_ERROR, s\<lparr>bufferFull := True\<rparr>)
      else if c = CR then (NO_ERROR, s)
      else if command_too_long s \<or> of_nat (COMMAND_SIZE_MAX - 1) \<le> bufferLength s
        then (COMMAND_TOO_LONG, s\<lparr>command_too_long := True\<rparr>)
      else
        (NO_ERROR,
         s\<lparr>inputBuffer :=
             (inputBuffer s)[unat (bufferLength s) := c, unat (bufferLength s + 1) := NUL],
           bufferLength := bufferLength s + 1\<rparr>))"

text \<open>
  \<^verbatim>\<open>executeCommand\<close>.  The three checks are three \<^verbatim>\<open>if\<close> statements in a row, each
  assigning \<^verbatim>\<open>error\<close>; only the third tests that no error was found before.  The view
  works on \<^verbatim>\<open>_inputBuffer\<close> itself, so what it leaves is the array \<^verbatim>\<open>clearBuffer\<close>
  then resets.
\<close>

definition executeCommand :: "'w CommandHandler \<Rightarrow> 'w \<Rightarrow> (CommandHandlerReturn \<times> 'w CommandHandler \<times> 'w) option" where
  "executeCommand s w =
     (let error0 = NO_ERROR;
          error1 = (if \<not> commandWaiting s then NO_COMMAND_WAITING else error0);
          error2 = (if command_too_long s then COMMAND_TOO_LONG else error1);
          error3 = (if bufferLength s = 0 \<and> error2 = NO_ERROR then EMPTY_COMMAND_STRING else error2)
      in if error3 = NO_ERROR then
           (case ParameterLookup_ctor (inputBuffer s) of
              None \<Rightarrow> None
            | Some lookupObj \<Rightarrow>
                (case callStoredCommand (lookupList s) lookupObj w of
                   None \<Rightarrow> None
                 | Some (error, lookupObj1, w') \<Rightarrow>
                     Some (error, clearBuffer (s\<lparr>inputBuffer := theCommand lookupObj1\<rparr>), w')))
         else Some (error3, clearBuffer s, w))"

text \<open>Feeding a sequence of bytes, the results discarded.\<close>

fun feed :: "char list \<Rightarrow> 'w CommandHandler \<Rightarrow> 'w CommandHandler" where
  "feed [] s = s"
| "feed (c # cs) s = feed cs (snd (addCommandChar c s))"

section \<open>Startup commands\<close>

text \<open>The EEPROM: a byte at every address.\<close>

type_synonym eeprom = "nat \<Rightarrow> char"

text \<open>The loop of \<^verbatim>\<open>executeStartupCommands\<close>.\<close>

function startup_loop ::
  "eeprom \<Rightarrow> nat \<Rightarrow> nat \<Rightarrow> CommandHandlerReturn \<Rightarrow> 'w CommandHandler \<Rightarrow> 'w
    \<Rightarrow> (CommandHandlerReturn \<times> 'w CommandHandler \<times> 'w) option" where
  "startup_loop ee EEPROM_idx numCharsRead result s w =
     (if EEPROM_SIZE_MAX \<le> numCharsRead then Some (result, snd (addCommandChar NEWLINE s), w)
      else
        (let c = ee EEPROM_idx in
         if c = NUL then Some (result, s, w)
         else if result = NO_ERROR then
           (let s1 = snd (addCommandChar c s) in
            if commandWaiting s1 then
              (case executeCommand s1 w of
                 None \<Rightarrow> None
               | Some (result1, s2, w2) \<Rightarrow>
                   startup_loop ee (Suc EEPROM_idx) (Suc numCharsRead) result1 s2 w2)
            else startup_loop ee (Suc EEPROM_idx) (Suc numCharsRead) result s1 w)
         else startup_loop ee (Suc EEPROM_idx) (Suc numCharsRead) result s w))"
  by pat_completeness auto
termination
  by (relation "measure (\<lambda>(ee, EEPROM_idx, numCharsRead, result, s, w). EEPROM_SIZE_MAX - numCharsRead)")
     (auto simp: EEPROM_SIZE_MAX_def)

definition executeStartupCommands ::
  "eeprom \<Rightarrow> 'w CommandHandler \<Rightarrow> 'w \<Rightarrow> (CommandHandlerReturn \<times> 'w CommandHandler \<times> 'w) option" where
  "executeStartupCommands ee s w =
     (if ee EEPROM_STORED_COMMAND_FLAG_LOCATION \<noteq> CHR 0x01 then Some (NO_COMMAND_WAITING, s, w)
      else startup_loop ee EEPROM_STORED_COMMAND_LOCATION 0 NO_ERROR s w)"

section \<open>Notions of the specification\<close>

text \<open>
  The delimiters, and the number of maximal runs of characters other than space and tab:
  \<open>token_runs b s\<close> counts the runs that start in \<open>s\<close>, where \<open>b\<close> says that the
  character before \<open>s\<close> belongs to a run.  Token 0 of a line is its first run.
\<close>

definition delimiter :: "char \<Rightarrow> bool" where
  "delimiter c = (c = SPACE \<or> c = TAB)"

primrec token_runs :: "bool \<Rightarrow> string \<Rightarrow> nat" where
  "token_runs b [] = 0"
| "token_runs b (c # cs) =
     (if delimiter c then token_runs False cs
      else (if b then 0 else 1) + token_runs True cs)"

definition first_token :: "string \<Rightarrow> string" where
  "first_token s = takeWhile (\<lambda>c. \<not> delimiter c) (dropWhile delimiter s)"

text \<open>Lower case, character by character: only \<open>A\<close> to \<open>Z\<close> change.\<close>

definition lowercase :: "char \<Rightarrow> char" where
  "lowercase c =
     (if (65::nat) \<le> of_char c \<and> of_char c \<le> (90::nat) then char_of (of_char c + (32::nat)) else c)"


text \<open>
  What a caller can do with a handler, and what it sees: the results of the calls, in
  order, and the world at the end.
\<close>

datatype op = Ingest char | Execute


text \<open>
  The replay of stored bytes as the specification words it: each byte goes through
  \<^verbatim>\<open>addCommandChar\<close>; when it completes a line the line is executed; the first
  execution that fails ends the replay with its result, nothing after it is fed or
  executed; if none fails the result is \<^verbatim>\<open>NO_ERROR\<close>.
\<close>

fun replay :: "char list \<Rightarrow> 'w CommandHandler \<Rightarrow> 'w \<Rightarrow> (CommandHandlerReturn \<times> 'w CommandHandler \<times> 'w) option" where
  "replay [] s w = Some (NO_ERROR, s, w)"
| "replay (c # cs) s w =
     (let s1 = snd (addCommandChar c s) in
      if commandWaiting s1 then
        (case executeCommand s1 w of
           None \<Rightarrow> None
         | Some (result, s2, w2) \<Rightarrow>
             if result = NO_ERROR then replay cs s2 w2 else Some (result, s2, w2))
      else replay cs s1 w)"

text \<open>
  The stored startup bytes: what the \<^verbatim>\<open>EEPROM_SIZE_MAX\<close> bytes from
  \<^verbatim>\<open>EEPROM_STORED_COMMAND_LOCATION\<close> on hold before their first NUL.
\<close>

definition stored :: "eeprom \<Rightarrow> char list" where
  "stored ee =
     takeWhile (\<lambda>c. c \<noteq> NUL)
       (map ee [EEPROM_STORED_COMMAND_LOCATION ..< EEPROM_STORED_COMMAND_LOCATION + EEPROM_SIZE_MAX])"

section \<open>The two forms of a view\<close>

text \<open>
  For the proofs.  A view over the line \<open>s\<close> (the bytes before the terminator, \<open>rest\<close>
  the bytes after it) is always in one of two forms: the null form, where every space
  and tab of \<open>s\<close> is a NUL, and the space form, where each of them is a space.
  \<open>boundaries b s\<close> is what the loop of \<^verbatim>\<open>subSpacesForNULL\<close> adds to \<^verbatim>\<open>_size\<close> on \<open>s\<close>,
  where \<open>b\<close> says that the byte before \<open>s\<close> exists and is not NUL.
\<close>

definition null_form :: "char \<Rightarrow> char" where
  "null_form c = (if delimiter c then NUL else c)"

definition space_form :: "char \<Rightarrow> char" where
  "space_form c = (if c = TAB then SPACE else c)"

primrec boundaries :: "bool \<Rightarrow> string \<Rightarrow> nat" where
  "boundaries b [] = 0"
| "boundaries b (c # cs) =
     (if delimiter c then (if b then 1 else 0) + boundaries False cs else boundaries True cs)"

definition canonical :: "string \<Rightarrow> char list \<Rightarrow> bool \<Rightarrow> ParameterLookup" where
  "canonical s rest nulls =
     \<lparr>theCommand = map (if nulls then null_form else space_form) s @ NUL # rest,
      endOfString = length s, stringHasNULLS = nulls,
      size' = 1 + of_nat (boundaries False s)\<rparr>"

definition token_ptr :: "string \<Rightarrow> int \<Rightarrow> ptr" where
  "token_ptr s idx = the (getParamPtr_loop (map null_form s) (length s) 0 idx)"

definition answer_ptr :: "string \<Rightarrow> int \<Rightarrow> ptr" where
  "answer_ptr s idx =
     (if idx = - 1 then Ptr 0 else if idx = - 2 then token_ptr s 1 else token_ptr s idx)"

text \<open>What a query at \<open>idx\<close> answers on a view over \<open>s\<close>.\<close>

definition answer_str :: "string \<Rightarrow> int \<Rightarrow> string option" where
  "answer_str s idx =
     (case answer_ptr s idx of
        NULL \<Rightarrow> None
      | Ptr a \<Rightarrow>
          Some (takeWhile (\<lambda>c. c \<noteq> NUL)
                  (drop a (map (if idx \<noteq> - 1 \<and> idx \<noteq> - 2 then null_form else space_form) s))))"


section \<open>A sample handler\<close>

text \<open>
  A command function that asks for the whole line and appends its own number and what
  it got to a log, and a handler with three such commands registered under the hashes
  of \<open>ping\<close> (no parameter), \<open>cmd\<close> (two parameters) and \<open>any\<close> (any number).
\<close>

definition log_call :: "nat \<Rightarrow> (nat \<times> string option) list commandFunction" where
  "log_call k w = Index (- 1) (\<lambda>line. Return (w @ [(k, line)]))"

definition demo_commands :: "(nat \<times> string option) list dataStruct list" where
  "demo_commands =
     [\<lparr>d_hash = 634732029, d_n = 0, d_f = log_call 1\<rparr>,
      \<lparr>d_hash = 794565824, d_n = 2, d_f = log_call 2\<rparr>,
      \<lparr>d_hash = 1693710260, d_n = - 1, d_f = log_call 3\<rparr>]"

definition demo_handler :: "(nat \<times> string option) list CommandHandler" where
  "demo_handler =
     (CommandHandler_ctor (replicate 151 (CHR ''x''))) \<lparr>lookupList := demo_commands\<rparr>"

text \<open>
  The view the constructor makes over \<open>CMD 1 2\<close>, and an EEPROM with the flag set and
  three lines stored (every other byte reads \<open>0xFF\<close>, as erased cells do).
\<close>

definition demo_view :: ParameterLookup where
  "demo_view =
     \<lparr>theCommand = ''CMD'' @ [NUL] @ ''1'' @ [NUL] @ ''2'' @ [NUL], endOfString = 7,
      stringHasNULLS = True, size' = 3\<rparr>"

definition demo_eeprom :: eeprom where
  "demo_eeprom a =
     (let cells = CHR 0x01 # ''ping'' @ [NEWLINE] @ ''foo'' @ [NEWLINE] @ ''any 1'' @ [NEWLINE, NUL]
      in if a < length cells then cells ! a else CHR 0xFF)"

section \<open>The parameter view\<close>

declare subSpaces_loop.simps [simp del] restoreSpaces_loop.simps [simp del]
  getParamPtr_loop.simps [simp del] search_loop.simps [simp del] startup_loop.simps [simp del]

lemma nth_before_append: "pre \<noteq> [] \<Longrightarrow> (pre @ xs) ! (length pre - Suc 0) = last pre"
  by (simp add: nth_append last_conv_nth)

lemma subSpaces_loop_run:
  "NUL \<notin> set s \<Longrightarrow>
   subSpaces_loop (pre @ s @ NUL # rest) (length pre) sz =
     Some (pre @ map null_form s @ NUL # rest, length pre + length s,
           sz + of_nat (boundaries (pre \<noteq> [] \<and> last pre \<noteq> NUL) s))"
proof (induction s arbitrary: pre sz)
  case Nil
  show ?case
    by (subst subSpaces_loop.simps) simp
next
  case (Cons c s)
  have c: "c \<noteq> NUL" and s: "NUL \<notin> set s"
    using Cons.prems by auto
  show ?case
  proof (cases "delimiter c")
    case True
    have "subSpaces_loop (pre @ (c # s) @ NUL # rest) (length pre) sz
          = subSpaces_loop ((pre @ [NUL]) @ s @ NUL # rest) (length (pre @ [NUL]))
              (if pre \<noteq> [] \<and> last pre \<noteq> NUL then sz + 1 else sz)"
      using True c
      by (subst subSpaces_loop.simps) (auto simp: delimiter_def nth_before_append)
    also have "\<dots> = Some ((pre @ [NUL]) @ map null_form s @ NUL # rest,
                         length (pre @ [NUL]) + length s,
                         (if pre \<noteq> [] \<and> last pre \<noteq> NUL then sz + 1 else sz)
                           + of_nat (boundaries False s))"
      using Cons.IH [OF s, of "pre @ [NUL]"] by simp
    finally show ?thesis
      using True by (simp add: null_form_def)
  next
    case False
    have "subSpaces_loop (pre @ (c # s) @ NUL # rest) (length pre) sz
          = subSpaces_loop ((pre @ [c]) @ s @ NUL # rest) (length (pre @ [c])) sz"
      using False c
      by (subst subSpaces_loop.simps) (auto simp: delimiter_def)
    also have "\<dots> = Some ((pre @ [c]) @ map null_form s @ NUL # rest,
                         length (pre @ [c]) + length s, sz + of_nat (boundaries True s))"
      using Cons.IH [OF s, of "pre @ [c]"] c by simp
    finally show ?thesis
      using False by (simp add: null_form_def)
  qed
qed

lemma restoreSpaces_loop_run:
  "restoreSpaces_loop (pre @ t @ rest) (length pre + length t) (length pre)
   = Some (pre @ map (\<lambda>c. if c = NUL then SPACE else c) t @ rest)"
proof (induction t arbitrary: pre)
  case Nil
  show ?case
    by (subst restoreSpaces_loop.simps) simp
next
  case (Cons c t)
  have "restoreSpaces_loop (pre @ (c # t) @ rest) (length pre + length (c # t)) (length pre)
        = restoreSpaces_loop ((pre @ [if c = NUL then SPACE else c]) @ t @ rest)
            (length (pre @ [if c = NUL then SPACE else c]) + length t)
            (length (pre @ [if c = NUL then SPACE else c]))"
    by (subst restoreSpaces_loop.simps) simp
  also have "\<dots> = Some ((pre @ [if c = NUL then SPACE else c])
                       @ map (\<lambda>c. if c = NUL then SPACE else c) t @ rest)"
    by (rule Cons.IH)
  finally show ?case by simp
qed

lemma getParamPtr_loop_defined:
  "eos \<le> length buf \<Longrightarrow> \<exists>p. getParamPtr_loop buf eos i count = Some p"
proof (induction buf eos i count rule: getParamPtr_loop.induct)
  case (1 buf eos paramPtr count)
  show ?case
  proof (cases "paramPtr < eos")
    case True
    then show ?thesis
      using 1 by (subst getParamPtr_loop.simps) auto
  next
    case False
    then show ?thesis
      by (subst getParamPtr_loop.simps) simp
  qed
qed


lemma getParamPtr_loop_prefix:
  "eos \<le> length t \<Longrightarrow> getParamPtr_loop (t @ rest) eos i count = getParamPtr_loop t eos i count"
proof (induction t eos i count rule: getParamPtr_loop.induct)
  case (1 t eos paramPtr count)
  show ?case
  proof (cases "paramPtr < eos")
    case True
    then have "paramPtr < length t" "paramPtr - Suc 0 < length t"
      using "1.prems" by simp_all
    then show ?thesis
      using True "1.IH" "1.prems"
      by (subst getParamPtr_loop.simps, subst (2) getParamPtr_loop.simps)
         (simp add: nth_append)
  next
    case False
    then show ?thesis
      by (subst getParamPtr_loop.simps, subst (2) getParamPtr_loop.simps) simp
  qed
qed

lemma getParamPtr_loop_canonical:
  "getParamPtr_loop (map null_form s @ NUL # rest) (length s) 0 idx = Some (token_ptr s idx)"
proof -
  have "getParamPtr_loop (map null_form s @ NUL # rest) (length s) 0 idx
        = getParamPtr_loop (map null_form s) (length s) 0 idx"
    by (rule getParamPtr_loop_prefix) simp
  moreover obtain p where "getParamPtr_loop (map null_form s) (length s) 0 idx = Some p"
    using getParamPtr_loop_defined [of "length s" "map null_form s" 0 idx] by auto
  ultimately show ?thesis
    by (simp add: token_ptr_def)
qed

lemma restore_null_form:
  "NUL \<notin> set s \<Longrightarrow> map (\<lambda>c. if c = NUL then SPACE else c) (map null_form s) = map space_form s"
  by (induction s) (auto simp: null_form_def space_form_def delimiter_def)

lemma null_form_space_form: "map null_form (map space_form s) = map null_form s"
  by (induction s) (auto simp: null_form_def space_form_def delimiter_def)

lemma boundaries_space_form: "boundaries b (map space_form s) = boundaries b s"
  by (induction s arbitrary: b) (auto simp: space_form_def delimiter_def)

lemma NUL_space_form: "NUL \<notin> set s \<Longrightarrow> NUL \<notin> set (map space_form s)"
  by (induction s) (auto simp: space_form_def)

lemma ctor_canonical:
  "NUL \<notin> set s \<Longrightarrow> ParameterLookup_ctor (s @ NUL # rest) = Some (canonical s rest True)"
  using subSpaces_loop_run [of s "[]" rest 1]
  by (simp add: ParameterLookup_ctor_def subSpacesForNULL_def canonical_def)

lemma subSpacesForNULL_canonical:
  assumes "NUL \<notin> set s"
  shows "subSpacesForNULL (canonical s rest False) = Some (canonical s rest True)"
proof -
  have "subSpaces_loop (map space_form s @ NUL # rest) 0 1
        = Some (map null_form s @ NUL # rest, length s, 1 + of_nat (boundaries False s))"
    using subSpaces_loop_run [OF NUL_space_form [OF assms], of "[]" rest 1]
    unfolding null_form_space_form boundaries_space_form by simp
  then show ?thesis
    by (simp add: subSpacesForNULL_def canonical_def)
qed

lemma restoreSpaces_canonical:
  assumes "NUL \<notin> set s"
  shows "restoreSpaces (canonical s rest nulls) = Some (canonical s rest False)"
proof (cases nulls)
  case True
  have "restoreSpaces_loop (map null_form s @ NUL # rest) (length s) 0
        = Some (map space_form s @ NUL # rest)"
    using restoreSpaces_loop_run [of "[]" "map null_form s" "NUL # rest"]
    unfolding restore_null_form [OF assms] by simp
  then show ?thesis
    using True by (simp add: restoreSpaces_def canonical_def)
next
  case False
  have "map (\<lambda>c. if c = NUL then SPACE else c) (map space_form s) = map space_form s"
    using NUL_space_form [OF assms] by (induction s) auto
  then have "restoreSpaces_loop (map space_form s @ NUL # rest) (length s) 0
        = Some (map space_form s @ NUL # rest)"
    using restoreSpaces_loop_run [of "[]" "map space_form s" "NUL # rest"]
    by (simp del: map_map)
  then show ?thesis
    using False by (simp add: restoreSpaces_def canonical_def)
qed

lemma getParamPtr_canonical:
  "NUL \<notin> set s \<Longrightarrow>
   getParamPtr (canonical s rest nulls) idx = Some (token_ptr s idx, canonical s rest True)"
proof -
  assume s: "NUL \<notin> set s"
  have "(if \<not> stringHasNULLS (canonical s rest nulls)
         then subSpacesForNULL (canonical s rest nulls) else Some (canonical s rest nulls))
        = Some (canonical s rest True)"
    using subSpacesForNULL_canonical [OF s, of rest]
    by (cases nulls) (simp_all add: canonical_def)
  moreover have "getParamPtr_loop (theCommand (canonical s rest True))
                   (endOfString (canonical s rest True)) 0 idx = Some (token_ptr s idx)"
    by (simp add: canonical_def getParamPtr_loop_canonical)
  ultimately show ?thesis
    by (simp add: getParamPtr_def)
qed

lemma operator_idx_canonical:
  "NUL \<notin> set s \<Longrightarrow>
   operator_idx (canonical s rest nulls) idx
   = Some (answer_ptr s idx, canonical s rest (idx \<noteq> - 1 \<and> idx \<noteq> - 2))"
proof -
  assume s: "NUL \<notin> set s"
  have sub: "(if \<not> stringHasNULLS (canonical s rest nulls)
         then subSpacesForNULL (canonical s rest nulls) else Some (canonical s rest nulls))
        = Some (canonical s rest True)"
    using subSpacesForNULL_canonical [OF s, of rest]
    by (cases nulls) (simp_all add: canonical_def)
  have same: "\<not> stringHasNULLS (canonical s rest nulls) \<Longrightarrow> canonical s rest nulls = canonical s rest False"
    by (cases nulls) (simp_all add: canonical_def)
  show ?thesis
    unfolding operator_idx_def sub
    using same
    by (simp add: answer_ptr_def restoreSpaces_canonical [OF s] getParamPtr_canonical [OF s])
qed

lemma queries_canonical:
  "NUL \<notin> set s \<Longrightarrow> \<exists>nulls'. queries (canonical s rest nulls) idxs = Some (canonical s rest nulls')"
proof (induction idxs arbitrary: nulls)
  case Nil
  show ?case by auto
next
  case (Cons idx idxs)
  then show ?case by (simp add: operator_idx_canonical)
qed

lemma c_str_terminated: "NUL \<notin> set s \<Longrightarrow> c_str (s @ NUL # rest) = Some s"
  by (induction s) auto


lemma boundaries_le: "boundaries b s \<le> length s"
proof (induction s arbitrary: b)
  case Nil
  show ?case by simp
next
  case (Cons c s)
  show ?case
    using Cons.IH [of False] Cons.IH [of True] by simp
qed

lemma boundaries_token_runs:
  "boundaries b s + (if (if s = [] then b else \<not> delimiter (last s)) then 1 else 0)
   = token_runs b s + (if b then 1 else 0)"
proof (induction s arbitrary: b)
  case Nil
  show ?case by simp
next
  case (Cons c s)
  show ?case
  proof (cases "delimiter c")
    case True
    then show ?thesis
      using Cons.IH [of False] by (cases "s = []") simp_all
  next
    case False
    then show ?thesis
      using Cons.IH [of True] by (cases "s = []") simp_all
  qed
qed

lemma size_ctor:
  assumes "NUL \<notin> set s" and "length s < 65535"
  shows "map_option (\<lambda>v. unat (size' v)) (ParameterLookup_ctor (s @ NUL # rest))
         = Some (token_runs False s + (if s = [] \<or> delimiter (last s) then 1 else 0))"
proof -
  have "boundaries False s < 65535"
    using boundaries_le [of False s] assms(2) by simp
  then have "unat (1 + of_nat (boundaries False s) :: uint) = 1 + boundaries False s"
    by (simp add: unat_word_ariths unat_of_nat)
  moreover have "1 + boundaries False s
                 = token_runs False s + (if s = [] \<or> delimiter (last s) then 1 else 0)"
    using boundaries_token_runs [of False s] by (auto split: if_splits)
  ultimately show ?thesis
    by (simp add: ctor_canonical [OF assms(1)] canonical_def)
qed

lemma getParamPtr_loop_range:
  "getParamPtr_loop buf eos i count = Some (Ptr a) \<Longrightarrow> i \<le> a \<and> a < eos"
proof (induction buf eos i count rule: getParamPtr_loop.induct)
  case (1 buf eos paramPtr count)
  show ?case
  proof (cases "paramPtr < eos")
    case True
    then show ?thesis
      using "1.prems" "1.IH"
      by (subst (asm) getParamPtr_loop.simps) (auto split: if_splits)
  next
    case False
    then show ?thesis
      using "1.prems" by (subst (asm) getParamPtr_loop.simps) simp
  qed
qed

lemma getParamPtr_loop_leading:
  "c \<noteq> NUL \<Longrightarrow> i \<le> n \<Longrightarrow> n < eos \<Longrightarrow>
   getParamPtr_loop (replicate n NUL @ c # tail) eos i 0 = Some (Ptr n)"
proof (induction "n - i" arbitrary: i)
  case 0
  then have "i = n" by simp
  then show ?case
    using 0 by (subst getParamPtr_loop.simps) (simp add: nth_append)
next
  case (Suc k)
  then have i: "i < n" by simp
  then have "(replicate n NUL @ c # tail) ! i = NUL"
    by (simp add: nth_append)
  moreover have "(replicate n NUL @ c # tail) ! (i - 1) = NUL"
  proof -
    have "i - 1 < n" using i by arith
    then show ?thesis by (simp add: nth_append)
  qed
  moreover have "getParamPtr_loop (replicate n NUL @ c # tail) eos (Suc i) 0 = Some (Ptr n)"
    using Suc i by simp
  ultimately show ?case
    using i Suc.prems by (subst getParamPtr_loop.simps) auto
qed

lemma null_form_leading: "map null_form (takeWhile delimiter s) = replicate (length (takeWhile delimiter s)) NUL"
  by (induction s) (auto simp: null_form_def)

lemma token_ptr_first:
  assumes "NUL \<notin> set s" and "\<not> list_all delimiter s"
  shows "token_ptr s 0 = Ptr (length (takeWhile delimiter s))"
proof -
  define ds where "ds = takeWhile delimiter s"
  define ts where "ts = dropWhile delimiter s"
  have s: "s = ds @ ts" by (simp add: ds_def ts_def)
  have "ts \<noteq> []"
    using assms(2) by (simp add: ts_def list_all_iff)
  then obtain c cs where ts: "ts = c # cs" by (cases ts) auto
  have c: "\<not> delimiter c"
    using ts by (simp add: ts_def dropWhile_eq_Cons_conv)
  have "c \<in> set s" using s ts by simp
  then have c0: "c \<noteq> NUL" using assms(1) by auto
  have "map null_form s = replicate (length ds) NUL @ c # map null_form cs"
    using c by (subst s) (simp add: ts ds_def null_form_leading null_form_def)
  moreover have "length ds < length s" using s ts by simp
  ultimately show ?thesis
    using getParamPtr_loop_leading [OF c0, of 0 "length ds" "length s" "map null_form cs"]
    by (simp add: token_ptr_def ds_def)
qed


lemma c_str_append_NUL: "c_str (xs @ NUL # rest) = Some (takeWhile (\<lambda>c. c \<noteq> NUL) xs)"
  by (induction xs) auto

lemma token_ptr_range: "token_ptr s idx = Ptr a \<Longrightarrow> a < length s"
proof -
  assume a: "token_ptr s idx = Ptr a"
  obtain p where p: "getParamPtr_loop (map null_form s) (length s) 0 idx = Some p"
    using getParamPtr_loop_defined [of "length s" "map null_form s" 0 idx] by auto
  then have "getParamPtr_loop (map null_form s) (length s) 0 idx = Some (Ptr a)"
    using a by (simp add: token_ptr_def)
  then show ?thesis
    using getParamPtr_loop_range by blast
qed

lemma answer_ptr_range: "answer_ptr s idx = Ptr a \<Longrightarrow> a \<le> length s"
  using token_ptr_range [of s idx a] token_ptr_range [of s 1 a]
  by (auto simp: answer_ptr_def split: if_splits)

lemma theCommand_canonical:
  "theCommand (canonical s rest nulls) = map (if nulls then null_form else space_form) s @ NUL # rest"
  by (simp add: canonical_def)

lemma size_canonical: "size' (canonical s rest nulls) = 1 + of_nat (boundaries False s)"
  by (simp add: canonical_def)

lemma ask_canonical:
  assumes "NUL \<notin> set s"
  shows "ask (canonical s rest nulls) idx
         = Some (answer_str s idx, canonical s rest (idx \<noteq> - 1 \<and> idx \<noteq> - 2))"
proof (cases "answer_ptr s idx")
  case NULL
  then show ?thesis
    by (simp add: ask_def operator_idx_canonical [OF assms] deref_def answer_str_def)
next
  case (Ptr a)
  define form where "form = (if idx \<noteq> - 1 \<and> idx \<noteq> - 2 then null_form else space_form)"
  have "a \<le> length (map form s)"
    using answer_ptr_range [OF Ptr] by simp
  then have "drop a (map form s @ NUL # rest) = drop a (map form s) @ NUL # rest"
    by simp
  then have "c_str_at (map form s @ NUL # rest) a
             = Some (takeWhile (\<lambda>c. c \<noteq> NUL) (drop a (map form s)))"
    by (simp add: c_str_at_def c_str_append_NUL)
  then show ?thesis
    using Ptr
    by (simp add: ask_def operator_idx_canonical [OF assms] deref_def answer_str_def
        theCommand_canonical form_def)
qed

lemma call_canonical:
  assumes "NUL \<notin> set s"
  shows "\<exists>w' nulls'. \<forall>rest. call prog (canonical s rest nulls) = Some (w', canonical s rest nulls')"
proof (induction prog arbitrary: nulls)
  case (Return w)
  show ?case by auto
next
  case (Index idx k)
  have "k (answer_str s idx) \<in> range k" by simp
  from Index.IH [OF this, of "idx \<noteq> - 1 \<and> idx \<noteq> - 2"]
  show ?case
    by (simp add: ask_canonical [OF assms])
next
  case (Size k)
  have "k (1 + of_nat (boundaries False s)) \<in> range k" by simp
  from Size.IH [OF this, of nulls]
  show ?case
    by (simp add: size_canonical)
qed


lemma null_form_token:
  "NUL \<notin> set ts \<Longrightarrow>
   takeWhile (\<lambda>c. c \<noteq> NUL) (map null_form ts) = takeWhile (\<lambda>c. \<not> delimiter c) ts"
  by (induction ts) (auto simp: null_form_def)

lemma c_str_first_NUL:
  "c_str (xs @ NUL # rest) = Some t \<Longrightarrow> \<exists>rest'. xs @ NUL # rest = t @ NUL # rest'"
proof (induction xs arbitrary: t)
  case Nil
  then show ?case by simp
next
  case (Cons c xs)
  show ?case
  proof (cases "c = NUL")
    case True
    then show ?thesis using Cons.prems by simp
  next
    case False
    then obtain t' where "c_str (xs @ NUL # rest) = Some t'" "t = c # t'"
      using Cons.prems by auto
    then show ?thesis using Cons.IH [of t'] by auto
  qed
qed

lemma answer_str_first:
  assumes "NUL \<notin> set s" and "\<not> list_all delimiter s"
  shows "answer_str s 0 = Some (first_token s)"
proof -
  define ds where "ds = takeWhile delimiter s"
  define ts where "ts = dropWhile delimiter s"
  have s: "s = ds @ ts" by (simp add: ds_def ts_def)
  have "NUL \<notin> set ts" using assms(1) s by auto
  then have "takeWhile (\<lambda>c. c \<noteq> NUL) (map null_form ts) = first_token s"
    by (simp add: null_form_token first_token_def ts_def)
  moreover have "drop (length ds) (map null_form s) = map null_form ts"
    by (subst s) simp
  ultimately show ?thesis
    using token_ptr_first [OF assms]
    by (simp add: answer_str_def answer_ptr_def ds_def)
qed


lemma getParamPtr_loop_blank:
  "i \<le> n \<Longrightarrow> getParamPtr_loop (replicate n NUL) n i 0 = Some NULL"
proof (induction "n - i" arbitrary: i)
  case 0
  then show ?case
    by (subst getParamPtr_loop.simps) simp
next
  case (Suc k)
  then have i: "i < n" by simp
  have "i - 1 < n" using i by arith
  moreover have "getParamPtr_loop (replicate n NUL) n (Suc i) 0 = Some NULL"
    using Suc i by simp
  ultimately show ?case
    using i by (subst getParamPtr_loop.simps) simp
qed

lemma null_form_blank: "list_all delimiter s \<Longrightarrow> map null_form s = replicate (length s) NUL"
  by (induction s) (auto simp: null_form_def)

lemma token_ptr_blank: "list_all delimiter s \<Longrightarrow> token_ptr s 0 = NULL"
  using getParamPtr_loop_blank [of 0 "length s"]
  by (simp add: token_ptr_def null_form_blank)






text \<open>
  C1.  Over \<open>HELO\<close> followed by one space the constructor sets \<^verbatim>\<open>_size\<close> to 2, and the
  string has one maximal run of characters other than space and tab.
\<close>

theorem size_counts_trailing_delimiter:
  "map_option size' (ParameterLookup_ctor (''HELO '' @ [NUL])) = Some 2
   \<and> token_runs False ''HELO '' = 1"
  by code_simp

text \<open>The example of the claim: consecutive delimiters are one boundary.\<close>

lemma size_collapses_delimiters:
  "map_option size' (ParameterLookup_ctor (''HELO   1'' @ [NUL])) = Some 2
   \<and> token_runs False ''HELO   1'' = 2"
  by code_simp

text \<open>
  C2, as the code has it.  Whatever queries went before, index -1 returns the line with
  each tab replaced by a space.
\<close>

theorem whole_line_tabs_as_spaces:
  assumes "NUL \<notin> set s"
  shows "query_after (s @ NUL # rest) idxs (- 1) = Some (Some (map space_form s))"
proof -
  obtain nulls where q: "queries (canonical s rest True) idxs = Some (canonical s rest nulls)"
    using queries_canonical [OF assms] by blast
  have "c_str_at (theCommand (canonical s rest False)) 0 = Some (map space_form s)"
    using c_str_terminated [OF NUL_space_form [OF assms]]
    by (simp add: c_str_at_def canonical_def)
  then have "ask (canonical s rest nulls) (- 1)
             = Some (Some (map space_form s), canonical s rest False)"
    by (simp add: ask_def operator_idx_canonical [OF assms] answer_ptr_def deref_def)
  then show ?thesis
    by (simp add: query_after_def ctor_canonical [OF assms] q)
qed

theorem whole_line_tabs_as_spaces_witness:
  "NUL \<notin> set ''HELO 1 2 3.3''
   \<and> query_after (''HELO 1 2 3.3'' @ NUL # ''xyz'') [0, 7, - 2, 2, - 1, - 3] (- 1)
     = Some (Some ''HELO 1 2 3.3'')"
proof -
  have h: "NUL \<notin> set ''HELO 1 2 3.3''"
    by simp
  have m: "map space_form ''HELO 1 2 3.3'' = ''HELO 1 2 3.3''"
    by (simp add: space_form_def)
  show ?thesis
    using h whole_line_tabs_as_spaces [OF h, of "''xyz''" "[0, 7, - 2, 2, - 1, - 3]"]
    by (simp only: m) simp
qed

text \<open>
  C2 as stated fails: over a line with a tab, index -1 returns the line with a space in
  the place of the tab.
\<close>

theorem whole_line_loses_tab:
  "query_after (''A'' @ [TAB] @ ''B'' @ [NUL]) [0, - 2] (- 1) = Some (Some [CHR ''A'', SPACE, CHR ''B''])
   \<and> [CHR ''A'', SPACE, CHR ''B''] \<noteq> ''A'' @ [TAB] @ ''B''"
  by code_simp

section \<open>The hash is case-insensitive\<close>

lemma sint_small: "k < 128 \<Longrightarrow> sint (of_nat k :: 8 word) = int k"
  by (simp add: signed_of_nat signed_take_bit_int_eq_self)

lemma char_to_int_small: "(of_char c :: nat) < 128 \<Longrightarrow> char_to_int c = int (of_char c)"
proof -
  assume a: "(of_char c :: nat) < 128"
  have "(of_char c :: 8 word) = of_nat (of_char c)"
    by (simp only: of_nat_of_char)
  then show ?thesis
    unfolding char_to_int_def using sint_small [OF a] by simp
qed

lemma of_char_lowercase:
  "(65::nat) \<le> of_char c \<Longrightarrow> of_char c \<le> (90::nat)
    \<Longrightarrow> (of_char (lowercase c) :: nat) = of_char c + 32"
  by (simp add: lowercase_def)

lemma tolower_lowercase: "tolower (char_to_int (lowercase c)) = tolower (char_to_int c)"
proof (cases "(65::nat) \<le> of_char c \<and> of_char c \<le> (90::nat)")
  case True
  then have l: "(of_char (lowercase c) :: nat) = of_char c + 32"
    by (simp add: of_char_lowercase)
  have "char_to_int c = int (of_char c)"
    using True by (simp add: char_to_int_small)
  moreover have "char_to_int (lowercase c) = int (of_char c) + 32"
    using True l by (simp add: char_to_int_small)
  ultimately show ?thesis
    using True by (simp add: tolower_def)
next
  case False
  then show ?thesis by (auto simp: lowercase_def)
qed

lemma lowercase_NUL: "lowercase c = NUL \<longleftrightarrow> c = NUL"
proof (cases "(65::nat) \<le> of_char c \<and> of_char c \<le> (90::nat)")
  case True
  then have "(of_char (lowercase c) :: nat) = of_char c + 32"
    by (simp add: of_char_lowercase)
  then have "(of_char (lowercase c) :: nat) \<noteq> of_char NUL" by simp
  then have "lowercase c \<noteq> NUL" by metis
  moreover have "c \<noteq> NUL" using True by auto
  ultimately show ?thesis by simp
next
  case False
  then show ?thesis by (auto simp: lowercase_def)
qed

lemma crc32b_loop_lowercase: "crc32b_loop (map lowercase str) crc = crc32b_loop str crc"
  by (induction str arbitrary: crc) (simp_all add: tolower_lowercase lowercase_NUL)

text \<open>The loop stops at the first NUL: what follows it in memory does not matter.\<close>

lemma crc32b_loop_terminated:
  "\<exists>h. \<forall>rest. crc32b_loop (s @ NUL # rest) crc = Some h"
proof (induction s arbitrary: crc)
  case Nil
  show ?case by simp
next
  case (Cons c s)
  show ?case
  proof (cases "c = NUL")
    case True
    then show ?thesis by simp
  next
    case False
    then show ?thesis
      using Cons.IH [of "crc32b_bits 8 (crc XOR word_of_int (tolower (char_to_int c)))"]
      by simp
  qed
qed

text \<open>
  C8.  The hash of a NUL-terminated string is the hash of the string in lower case, and
  it is defined: \<open>s\<close> is the string, \<open>rest1\<close> and \<open>rest2\<close> are whatever follows the
  terminator in memory.
\<close>

theorem crc32b_case_insensitive:
  "crc32b (map lowercase s @ NUL # rest1) = crc32b (s @ NUL # rest2)
   \<and> crc32b (s @ NUL # rest2) \<noteq> None"
proof -
  obtain h where h: "\<And>rest. crc32b_loop (s @ NUL # rest) 0xFFFFFFFF = Some h"
    using crc32b_loop_terminated [of s "0xFFFFFFFF"] by blast
  obtain h' where h': "\<And>rest. crc32b_loop (map lowercase s @ NUL # rest) 0xFFFFFFFF = Some h'"
    using crc32b_loop_terminated [of "map lowercase s" "0xFFFFFFFF"] by blast
  have "lowercase NUL = NUL"
    by (simp add: lowercase_NUL)
  then have "map lowercase (s @ [NUL]) = map lowercase s @ [NUL]"
    by simp
  then have "crc32b_loop (map lowercase s @ [NUL]) 0xFFFFFFFF = crc32b_loop (s @ [NUL]) 0xFFFFFFFF"
    using crc32b_loop_lowercase [of "s @ [NUL]" "0xFFFFFFFF"] by simp
  then have "h' = h"
    using h [of "[]"] h' [of "[]"] by simp
  then show ?thesis
    by (simp add: crc32b_def h h')
qed

text \<open>The examples of the claim.\<close>

lemma crc32b_examples:
  "crc32b (''HELO'' @ [NUL]) = Some 2240762201
   \<and> crc32b (''helo'' @ [NUL]) = Some 2240762201
   \<and> crc32b (''HeLo'' @ [NUL]) = Some 2240762201"
  by code_simp

section \<open>Dispatch\<close>

lemma search_loop_find:
  "(find (\<lambda>d. d_hash d = h) (drop i commands) = None \<longrightarrow> search_loop h commands i = - 1)
   \<and> (\<forall>d. find (\<lambda>d. d_hash d = h) (drop i commands) = Some d \<longrightarrow>
          0 \<le> search_loop h commands i \<and> commands ! nat (search_loop h commands i) = d)"
proof (induction h commands i rule: search_loop.induct)
  case (1 reqHash commands i)
  show ?case
  proof (cases "i < length commands")
    case True
    then have d: "drop i commands = commands ! i # drop (Suc i) commands"
      by (simp add: Cons_nth_drop_Suc)
    show ?thesis
    proof (cases "reqHash = d_hash (commands ! i)")
      case True
      then show ?thesis
        using \<open>i < length commands\<close> d by (subst search_loop.simps, subst (2) search_loop.simps, subst (3) search_loop.simps) simp
    next
      case False
      then show ?thesis
        using \<open>i < length commands\<close> d "1.IH"
        by (subst search_loop.simps, subst (2) search_loop.simps, subst (3) search_loop.simps) auto
    qed
  next
    case False
    then show ?thesis
      by (subst search_loop.simps) simp
  qed
qed

lemma sint_small16: "m < 32768 \<Longrightarrow> sint (of_nat m :: 16 word) = int m"
  by (simp add: signed_of_nat signed_take_bit_int_eq_self)

lemma arity_check:
  fixes n sz :: "16 word"
  assumes "1 \<le> unat sz" and "unat sz \<le> 32768"
  shows "(n \<noteq> sz - 1 \<and> n \<noteq> - 1) = (sint n \<noteq> - 1 \<and> sint n \<noteq> int (unat sz) - 1)"
proof -
  have "sz \<noteq> 0"
    using assms(1) by auto
  then have u: "unat (sz - 1) = unat sz - 1"
    by (rule unat_minus_one)
  have "sz - 1 = of_nat (unat (sz - 1))"
    by simp
  then have "sint (sz - 1) = int (unat (sz - 1))"
    using sint_small16 [of "unat (sz - 1)"] u assms by simp
  then have a: "sint (sz - 1) = int (unat sz) - 1"
    using u assms(1) by simp
  have "(n = sz - 1) = (sint n = sint (sz - 1))"
    by (rule word_eq_iff_signed)
  moreover have "(n = - 1) = (sint n = sint (- 1 :: 16 word))"
    by (rule word_eq_iff_signed)
  ultimately show ?thesis
    using a by auto
qed

lemma crc32b_terminated: "crc32b (t @ NUL # rest) = crc32b (t @ [NUL]) \<and> crc32b (t @ [NUL]) \<noteq> None"
proof -
  obtain h where "\<And>rest. crc32b_loop (t @ NUL # rest) 0xFFFFFFFF = Some h"
    using crc32b_loop_terminated [of t "0xFFFFFFFF"] by blast
  then show ?thesis
    by (simp add: crc32b_def)
qed

lemma callStoredCommand_blank:
  "NUL \<notin> set s \<Longrightarrow> list_all delimiter s \<Longrightarrow>
   callStoredCommand commands (canonical s rest nulls) w = None"
  by (simp add: callStoredCommand_def operator_idx_canonical answer_ptr_def token_ptr_blank)


lemma first_token_memory:
  assumes "NUL \<notin> set s" and "\<not> list_all delimiter s"
  shows "\<exists>rest'. drop (length (takeWhile delimiter s)) (map null_form s @ NUL # rest)
                  = first_token s @ NUL # rest'"
proof -
  define a where "a = length (takeWhile delimiter s)"
  have ptr: "answer_ptr s 0 = Ptr a"
    using token_ptr_first [OF assms] by (simp add: answer_ptr_def a_def)
  then have "a \<le> length s"
    by (rule answer_ptr_range)
  then have d: "drop a (map null_form s @ NUL # rest) = drop a (map null_form s) @ NUL # rest"
    by simp
  have "answer_str s 0 = Some (takeWhile (\<lambda>c. c \<noteq> NUL) (drop a (map null_form s)))"
    using ptr by (simp add: answer_str_def)
  then have "c_str (drop a (map null_form s) @ NUL # rest) = Some (first_token s)"
    using answer_str_first [OF assms] by (simp add: c_str_append_NUL)
  then show ?thesis
    using c_str_first_NUL [of "drop a (map null_form s)" rest "first_token s"] d
    by (simp add: a_def)
qed

lemma callStoredCommand_unfold:
  assumes "NUL \<notin> set s" and "\<not> list_all delimiter s"
    and "crc32b (first_token s @ [NUL]) = Some h"
  shows "callStoredCommand commands (canonical s rest nulls) w =
           (let foundIdx = search_loop h commands 0 in
            if foundIdx = - 1 then Some (COMMAND_NOT_FOUND, canonical s rest True, w)
            else
              (let d = commands ! nat foundIdx in
               if d_n d \<noteq> size' (canonical s rest True) - 1 \<and> d_n d \<noteq> - 1
               then Some (WRONG_NUM_OF_PARAMS, canonical s rest True, w)
               else
                 (case call (d_f d w) (canonical s rest True) of
                    None \<Rightarrow> None
                  | Some (w', params2) \<Rightarrow> Some (NO_ERROR, params2, w'))))"
proof -
  define a where "a = length (takeWhile delimiter s)"
  have op: "operator_idx (canonical s rest nulls) 0 = Some (Ptr a, canonical s rest True)"
    using token_ptr_first [OF assms(1,2)]
    by (simp add: operator_idx_canonical [OF assms(1)] answer_ptr_def a_def)
  obtain rest' where "drop a (theCommand (canonical s rest True)) = first_token s @ NUL # rest'"
    using first_token_memory [OF assms(1,2), of rest] by (auto simp: theCommand_canonical a_def)
  then have crc: "crc32b (drop a (theCommand (canonical s rest True))) = Some h"
    using crc32b_terminated [of "first_token s" rest'] assms(3) by simp
  show ?thesis
    by (simp add: callStoredCommand_def op crc)
qed



text \<open>
  Dispatch over a line that holds a token.  \<open>params\<close> is a view over the line \<open>s\<close>,
  constructed and then queried in any way.  Then \<^verbatim>\<open>params[0]\<close> is the first token, and
  \<^verbatim>\<open>callStoredCommand\<close> hashes it and takes the first entry, in the order of registration,
  that has this hash: with none it returns \<^verbatim>\<open>COMMAND_NOT_FOUND\<close>; if the arity of the
  entry is neither -1 nor the size of the view minus one it returns
  \<^verbatim>\<open>WRONG_NUM_OF_PARAMS\<close>, and the world is as before; otherwise it calls the command
  function of that entry on the view, the call returns, and the result is \<^verbatim>\<open>NO_ERROR\<close>.
\<close>

lemma callStoredCommand_dispatch:
  fixes commands :: "'w dataStruct list"
  assumes "NUL \<notin> set s" and "length s \<le> COMMAND_SIZE_MAX" and "\<not> list_all delimiter s"
    and "ParameterLookup_ctor (s @ NUL # rest) = Some v" and "queries v idxs = Some params"
  shows "\<exists>h params0.
           ask params 0 = Some (Some (first_token s), params0)
         \<and> crc32b (first_token s @ [NUL]) = Some h
         \<and> size' params0 = size' params
         \<and> (\<forall>prog :: 'w access. call prog params0 \<noteq> None)
         \<and> callStoredCommand commands params w =
             (case find (\<lambda>d. d_hash d = h) commands of
                None \<Rightarrow> Some (COMMAND_NOT_FOUND, params0, w)
              | Some d \<Rightarrow>
                  if sint (d_n d) \<noteq> - 1 \<and> sint (d_n d) \<noteq> int (unat (size' params)) - 1
                  then Some (WRONG_NUM_OF_PARAMS, params0, w)
                  else map_option (\<lambda>(w', params1). (NO_ERROR, params1, w'))
                         (call (d_f d w) params0))"
proof -
  define params0 where "params0 = canonical s rest True"
  have v: "v = canonical s rest True"
    using assms(4) ctor_canonical [OF assms(1), of rest] by simp
  obtain nulls where params: "params = canonical s rest nulls"
    using assms(5) queries_canonical [OF assms(1), of rest True idxs] v by auto
  have ask0: "ask params 0 = Some (Some (first_token s), params0)"
    by (simp add: params params0_def ask_canonical [OF assms(1)] answer_str_first [OF assms(1,3)])
  obtain h where h: "crc32b (first_token s @ [NUL]) = Some h"
    using crc32b_terminated [of "first_token s" "[]"] by auto
  have sz: "size' params0 = size' params"
    by (simp add: params params0_def size_canonical)
  have total: "call prog params0 \<noteq> None" for prog :: "'w access"
    using call_canonical [OF assms(1), of prog True] by (auto simp: params0_def)
  have "boundaries False s \<le> 150"
    using boundaries_le [of False s] assms(2) by (simp add: COMMAND_SIZE_MAX_def)
  then have "unat (size' params0) = 1 + boundaries False s"
    by (simp add: params0_def size_canonical unat_word_ariths unat_of_nat)
  then have bounds: "1 \<le> unat (size' params0)" "unat (size' params0) \<le> 32768"
    using \<open>boundaries False s \<le> 150\<close> by simp_all
  have check: "(d_n d \<noteq> size' params0 - 1 \<and> d_n d \<noteq> - 1)
        = (sint (d_n d) \<noteq> - 1 \<and> sint (d_n d) \<noteq> int (unat (size' params)) - 1)"
    for d :: "'w dataStruct"
    using arity_check [OF bounds, of "d_n d"] sz by simp
  note unfold = callStoredCommand_unfold [OF assms(1,3) h, of commands rest nulls w]
  have dispatch: "callStoredCommand commands params w =
             (case find (\<lambda>d. d_hash d = h) commands of
                None \<Rightarrow> Some (COMMAND_NOT_FOUND, params0, w)
              | Some d \<Rightarrow>
                  if sint (d_n d) \<noteq> - 1 \<and> sint (d_n d) \<noteq> int (unat (size' params)) - 1
                  then Some (WRONG_NUM_OF_PARAMS, params0, w)
                  else map_option (\<lambda>(w', params1). (NO_ERROR, params1, w'))
                         (call (d_f d w) params0))"
  proof (cases "find (\<lambda>d. d_hash d = h) commands")
    case None
    then have "search_loop h commands 0 = - 1"
      using search_loop_find [of h 0 commands] by simp
    then show ?thesis
      using None by (simp add: params unfold params0_def)
  next
    case (Some d)
    then have "0 \<le> search_loop h commands 0" "commands ! nat (search_loop h commands 0) = d"
      using search_loop_find [of h 0 commands] by simp_all
    then show ?thesis
      using Some check [of d]
      by (auto simp: params unfold Let_def simp flip: params0_def split: option.splits)
  qed
  show ?thesis
    using ask0 h sz total dispatch by blast
qed

lemma callStoredCommand_dispatch_example:
  "NUL \<notin> set ''CMD 1 2'' \<and> length ''CMD 1 2'' \<le> COMMAND_SIZE_MAX
   \<and> \<not> list_all delimiter ''CMD 1 2''
   \<and> ParameterLookup_ctor (''CMD 1 2'' @ [NUL]) = Some demo_view
   \<and> queries demo_view [] = Some demo_view
   \<and> callStoredCommand demo_commands demo_view []
     = Some (NO_ERROR, demo_view\<lparr>theCommand := ''CMD 1 2'' @ [NUL], stringHasNULLS := False\<rparr>,
             [(2, Some ''CMD 1 2'')])"
proof -
  have h1: "NUL \<notin> set ''CMD 1 2''" by simp
  have h2: "length ''CMD 1 2'' \<le> COMMAND_SIZE_MAX" by (simp add: COMMAND_SIZE_MAX_def)
  have h3: "\<not> list_all delimiter ''CMD 1 2''" by (simp add: delimiter_def)
  have h4: "ParameterLookup_ctor (''CMD 1 2'' @ [NUL]) = Some demo_view" by code_simp
  have h5: "queries demo_view [] = Some demo_view" by simp
  obtain h params0 where
    a: "ask demo_view 0 = Some (Some (first_token ''CMD 1 2''), params0)" and
    c: "crc32b (first_token ''CMD 1 2'' @ [NUL]) = Some h" and
    d: "callStoredCommand demo_commands demo_view [] =
             (case find (\<lambda>d. d_hash d = h) demo_commands of
                None \<Rightarrow> Some (COMMAND_NOT_FOUND, params0, [])
              | Some d \<Rightarrow>
                  if sint (d_n d) \<noteq> - 1 \<and> sint (d_n d) \<noteq> int (unat (size' demo_view)) - 1
                  then Some (WRONG_NUM_OF_PARAMS, params0, [])
                  else map_option (\<lambda>(w', params1). (NO_ERROR, params1, w'))
                         (call (d_f d []) params0))"
    using callStoredCommand_dispatch [OF h1 h2 h3 h4 h5, of demo_commands "[]"] by blast
  have "ask demo_view 0 = Some (Some ''CMD'', demo_view)" by code_simp
  then have p: "params0 = demo_view" using a by simp
  have "crc32b (first_token ''CMD 1 2'' @ [NUL]) = Some 794565824" by code_simp
  then have h: "h = 794565824" using c by simp
  have f: "find (\<lambda>d. d_hash d = (794565824 :: uint32_t)) demo_commands
           = Some \<lparr>d_hash = 794565824, d_n = 2, d_f = log_call 2\<rparr>"
    by (simp add: demo_commands_def)
  have s: "size' demo_view = 3" by (simp add: demo_view_def)
  have r: "call (log_call 2 []) demo_view
     = Some ([(2, Some ''CMD 1 2'')], demo_view\<lparr>theCommand := ''CMD 1 2'' @ [NUL], stringHasNULLS := False\<rparr>)"
    by code_simp
  show ?thesis
    using h1 h2 h3 h4 h5 d by (simp add: p h f s r)
qed

text \<open>
  C3.  Over a line that is one space the view has no token: \<^verbatim>\<open>params[0]\<close> is the
  null pointer, and \<^verbatim>\<open>callStoredCommand\<close>, whatever commands are registered, hands it to
  \<^verbatim>\<open>crc32b\<close>, which reads through it: the call has no defined result, where a
  dispatch that matches no entry is to return \<^verbatim>\<open>COMMAND_NOT_FOUND\<close>.  The handler gets there on the bytes space and newline:
  \<^verbatim>\<open>executeCommand\<close> turns away the empty line only (\<^verbatim>\<open>_bufferLength\<close> is 1 here).
\<close>

theorem callStoredCommand_null_token:
  "ParameterLookup_ctor ('' '' @ [NUL]) \<noteq> None
   \<and> map_option fst (operator_idx (the (ParameterLookup_ctor ('' '' @ [NUL]))) 0) = Some NULL
   \<and> callStoredCommand commands (the (ParameterLookup_ctor ('' '' @ [NUL]))) w = None
   \<and> bufferLength (feed ('' '' @ [NEWLINE]) demo_handler) = 1
   \<and> executeCommand (feed ('' '' @ [NEWLINE]) demo_handler) [] = None"
proof -
  have s: "NUL \<notin> set '' ''" "list_all delimiter '' ''"
    by (simp_all add: delimiter_def)
  have v: "ParameterLookup_ctor ('' '' @ [NUL]) = Some (canonical '' '' [] True)"
    using ctor_canonical [OF s(1), of "[]"] by simp
  have p: "map_option fst (operator_idx (canonical '' '' [] True) 0) = Some NULL"
    by (simp add: operator_idx_canonical [OF s(1)] answer_ptr_def token_ptr_blank [OF s(2)])
  have c: "callStoredCommand commands (canonical '' '' [] True) w = None"
    by (rule callStoredCommand_blank [OF s])
  have l: "bufferLength (feed ('' '' @ [NEWLINE]) demo_handler) = 1"
    by code_simp
  have e: "executeCommand (feed ('' '' @ [NEWLINE]) demo_handler) [] = None"
    by code_simp
  show ?thesis
    unfolding v option.sel using p c l e by (intro conjI) simp_all
qed

section \<open>The line buffer\<close>

lemma addCommandChar_too_long:
  "command_too_long s \<Longrightarrow> command_too_long (snd (addCommandChar c s))"
  by (simp add: addCommandChar_def)

lemma feed_too_long: "command_too_long s \<Longrightarrow> command_too_long (feed cs s)"
  by (induction cs arbitrary: s) (simp_all add: addCommandChar_too_long)

text \<open>Whenever no complete line waits, a newline sets the flag and the result is \<^verbatim>\<open>UNKNOWN_ERROR\<close>.\<close>

lemma addCommandChar_newline:
  "\<not> bufferFull s \<Longrightarrow> addCommandChar NEWLINE s = (UNKNOWN_ERROR, s\<lparr>bufferFull := True\<rparr>)"
  by (auto simp: addCommandChar_def)

lemma addCommandChar_not_full:
  "\<not> bufferFull s \<Longrightarrow> NEWLINE \<noteq> c \<Longrightarrow> \<not> bufferFull (snd (addCommandChar c s))"
  by (auto simp: addCommandChar_def)

lemma feed_not_full:
  "\<not> bufferFull s \<Longrightarrow> NEWLINE \<notin> set l \<Longrightarrow> \<not> bufferFull (feed l s)"
  by (induction l arbitrary: s) (simp_all add: addCommandChar_not_full)

text \<open>
  C4.  On a handler that has just been constructed, a newline makes
  \<^verbatim>\<open>addCommandChar\<close> set \<^verbatim>\<open>_bufferFull\<close> and return \<^verbatim>\<open>UNKNOWN_ERROR\<close>.
\<close>

theorem addCommandChar_newline_unknown_error:
  "addCommandChar NEWLINE (CommandHandler_ctor mem)
   = (UNKNOWN_ERROR, (CommandHandler_ctor mem)\<lparr>bufferFull := True\<rparr>)"
  by (simp add: addCommandChar_def CommandHandler_ctor_def)

text \<open>
  C5, as the code has it.  When no complete line is buffered, \<^verbatim>\<open>executeCommand\<close> calls
  no command function, resets the buffer, and returns \<^verbatim>\<open>NO_COMMAND_WAITING\<close> if the
  too-long flag is clear and \<^verbatim>\<open>COMMAND_TOO_LONG\<close> if it is set.
\<close>

theorem executeCommand_no_line:
  "\<not> commandWaiting s \<Longrightarrow>
   executeCommand s w =
     Some (if command_too_long s then COMMAND_TOO_LONG else NO_COMMAND_WAITING, clearBuffer s, w)"
  by (simp add: executeCommand_def)

theorem executeCommand_no_line_witness:
  "\<not> commandWaiting (feed ''PI'' demo_handler)
   \<and> executeCommand (feed ''PI'' demo_handler) []
     = Some (NO_COMMAND_WAITING, clearBuffer (feed ''PI'' demo_handler), [])"
proof -
  have h: "\<not> commandWaiting (feed ''PI'' demo_handler)"
    by code_simp
  have t: "\<not> command_too_long (feed ''PI'' demo_handler)"
    by code_simp
  show ?thesis
    using h t executeCommand_no_line [OF h, of "[]"] by simp
qed

text \<open>
  C5 as stated fails: after 150 bytes without a newline no line is complete, and
  \<^verbatim>\<open>executeCommand\<close> returns \<^verbatim>\<open>COMMAND_TOO_LONG\<close>.
\<close>

theorem executeCommand_overflow_no_newline:
  "\<not> commandWaiting (feed (replicate 150 (CHR ''a'')) demo_handler)
   \<and> map_option fst (executeCommand (feed (replicate 150 (CHR ''a'')) demo_handler) [])
     = Some COMMAND_TOO_LONG"
  by code_simp

text \<open>
  C7.  While a complete line waits, \<^verbatim>\<open>addCommandChar\<close> returns \<^verbatim>\<open>BUFFER_FULL\<close> for
  every byte and changes nothing.
\<close>

theorem addCommandChar_buffer_full:
  "bufferFull s \<Longrightarrow> addCommandChar c s = (BUFFER_FULL, s)"
  by (simp add: addCommandChar_def)

theorem addCommandChar_buffer_full_witness:
  "bufferFull (feed (''PING'' @ [NEWLINE]) demo_handler)
   \<and> addCommandChar (CHR ''a'') (feed (''PING'' @ [NEWLINE]) demo_handler)
     = (BUFFER_FULL, feed (''PING'' @ [NEWLINE]) demo_handler)"
proof -
  have h: "bufferFull (feed (''PING'' @ [NEWLINE]) demo_handler)"
    by code_simp
  show ?thesis
    using h addCommandChar_buffer_full [OF h, of "CHR ''a''"] by simp
qed

text \<open>
  C10.  Once the too-long flag is set, whatever bytes follow (a newline among them or
  not), the next \<^verbatim>\<open>executeCommand\<close> returns \<^verbatim>\<open>COMMAND_TOO_LONG\<close> and leaves the world
  as it was: no command function has run.
\<close>

theorem overflowed_line_not_dispatched:
  "command_too_long s \<Longrightarrow>
   executeCommand (feed cs s) w = Some (COMMAND_TOO_LONG, clearBuffer (feed cs s), w)"
  using feed_too_long [of s cs] by (simp add: executeCommand_def)

theorem overflowed_line_not_dispatched_witness:
  "command_too_long (feed (replicate 150 (CHR ''a'')) demo_handler)
   \<and> map_option (\<lambda>(r, s, w). (r, w))
       (executeCommand
          (feed (''bc'' @ [NEWLINE]) (feed (replicate 150 (CHR ''a'')) demo_handler)) [])
     = Some (COMMAND_TOO_LONG, [])"
proof -
  have h: "command_too_long (feed (replicate 150 (CHR ''a'')) demo_handler)"
    by code_simp
  show ?thesis
    using h overflowed_line_not_dispatched [OF h, of "''bc'' @ [NEWLINE]" "[]"] by simp
qed













section \<open>The replay of startup commands\<close>

text \<open>
  The replay line by line: the bytes of a line are fed, its newline completes it, it is
  executed, and the replay goes on after it only if the execution returned \<^verbatim>\<open>NO_ERROR\<close>.
\<close>

lemma replay_line:
  assumes "\<not> bufferFull s" and "NEWLINE \<notin> set l"
  shows "replay (l @ NEWLINE # cs) s w =
           (case executeCommand ((feed l s)\<lparr>bufferFull := True\<rparr>) w of
              None \<Rightarrow> None
            | Some (result, s2, w2) \<Rightarrow>
                if result = NO_ERROR then replay cs s2 w2 else Some (result, s2, w2))"
  using assms
proof (induction l arbitrary: s)
  case Nil
  then show ?case
    by (simp add: addCommandChar_newline commandWaiting_def)
next
  case (Cons c l)
  then have "\<not> bufferFull (snd (addCommandChar c s))"
    by (simp add: addCommandChar_not_full)
  then show ?case
    using Cons by (simp add: commandWaiting_def)
qed

lemma startup_loop_replay:
  fixes s :: "'w CommandHandler"
  shows "(\<forall>i<length cs. ee (idx + i) = cs ! i) \<Longrightarrow> NUL \<notin> set cs \<Longrightarrow> ee (idx + length cs) = NUL
   \<Longrightarrow> n + length cs < EEPROM_SIZE_MAX \<Longrightarrow>
   startup_loop ee idx n result s w
   = (if result = NO_ERROR then replay cs s w else Some (result, s, w))"
proof (induction cs arbitrary: idx n result s w)
  case Nil
  then show ?case
    by (subst startup_loop.simps) simp
next
  case (Cons c cs)
  have c: "ee idx = c" "c \<noteq> NUL"
    using Cons.prems(1,2) by auto
  have n: "\<not> EEPROM_SIZE_MAX \<le> n"
    using Cons.prems(4) by simp
  have IH: "startup_loop ee (Suc idx) (Suc n) result' s' w'
            = (if result' = NO_ERROR then replay cs s' w' else Some (result', s', w'))"
    for result' and s' :: "'w CommandHandler" and w'
  proof (rule Cons.IH)
    show "\<forall>i<length cs. ee (Suc idx + i) = cs ! i"
      using Cons.prems(1) by fastforce
    show "NUL \<notin> set cs"
      using Cons.prems(2) by simp
    show "ee (Suc idx + length cs) = NUL"
      using Cons.prems(3) by simp
    show "Suc n + length cs < EEPROM_SIZE_MAX"
      using Cons.prems(4) by simp
  qed
  show ?case
    using c n
    by (subst startup_loop.simps) (auto simp: IH Let_def split: option.splits)
qed

text \<open>
  C9.  The presence flag is set and the stored bytes end with a NUL inside the
  \<^verbatim>\<open>EEPROM_SIZE_MAX\<close> bytes that are read.  Then \<^verbatim>\<open>executeStartupCommands\<close> is the
  replay of the stored bytes: byte by byte through \<^verbatim>\<open>addCommandChar\<close>, every completed
  line executed in order, the first failing execution ending it with its result.
\<close>

theorem executeStartupCommands_replays:
  assumes "ee EEPROM_STORED_COMMAND_FLAG_LOCATION = CHR 0x01"
    and "length (stored ee) < EEPROM_SIZE_MAX"
  shows "executeStartupCommands ee s w = replay (stored ee) s w"
proof -
  define mem where "mem = map ee [EEPROM_STORED_COMMAND_LOCATION ..< EEPROM_STORED_COMMAND_LOCATION + EEPROM_SIZE_MAX]"
  have st: "stored ee = takeWhile (\<lambda>c. c \<noteq> NUL) mem"
    by (simp add: stored_def mem_def)
  have len: "length (stored ee) < length mem"
    using assms(2) by (simp add: mem_def)
  have "\<forall>i<length (stored ee). ee (EEPROM_STORED_COMMAND_LOCATION + i) = stored ee ! i"
  proof (intro allI impI)
    fix i assume i: "i < length (stored ee)"
    then have "stored ee ! i = mem ! i"
      unfolding st by (rule takeWhile_nth)
    moreover have "i < EEPROM_SIZE_MAX"
      using i assms(2) by simp
    ultimately show "ee (EEPROM_STORED_COMMAND_LOCATION + i) = stored ee ! i"
      by (simp add: mem_def)
  qed
  moreover have "NUL \<notin> set (stored ee)"
    unfolding st by (auto dest: set_takeWhileD)
  moreover have "ee (EEPROM_STORED_COMMAND_LOCATION + length (stored ee)) = NUL"
  proof -
    have "\<not> (mem ! length (stored ee) \<noteq> NUL)"
      using len unfolding st by (rule nth_length_takeWhile)
    then show ?thesis
      using assms(2) by (simp add: mem_def)
  qed
  ultimately have "startup_loop ee EEPROM_STORED_COMMAND_LOCATION 0 NO_ERROR s w = replay (stored ee) s w"
    using startup_loop_replay [of "stored ee" ee EEPROM_STORED_COMMAND_LOCATION 0 NO_ERROR s w] assms(2)
    by simp
  then show ?thesis
    using assms(1) by (simp add: executeStartupCommands_def)
qed

theorem executeStartupCommands_replays_witness:
  "demo_eeprom EEPROM_STORED_COMMAND_FLAG_LOCATION = CHR 0x01
   \<and> length (stored demo_eeprom) < EEPROM_SIZE_MAX
   \<and> executeStartupCommands demo_eeprom demo_handler []
     = replay (stored demo_eeprom) demo_handler []
   \<and> map_option fst (replay (stored demo_eeprom) demo_handler []) = Some COMMAND_NOT_FOUND
   \<and> map_option (\<lambda>r. snd (snd r)) (replay (stored demo_eeprom) demo_handler [])
     = Some [(1, Some ''ping'')]"
proof -
  have h1: "demo_eeprom EEPROM_STORED_COMMAND_FLAG_LOCATION = CHR 0x01"
    by code_simp
  have h2: "length (stored demo_eeprom) < EEPROM_SIZE_MAX"
    by code_simp
  have r: "map_option fst (replay (stored demo_eeprom) demo_handler []) = Some COMMAND_NOT_FOUND"
    by code_simp
  have l: "map_option (\<lambda>r. snd (snd r)) (replay (stored demo_eeprom) demo_handler [])
           = Some [(1, Some ''ping'')]"
    by code_simp
  show ?thesis
    using h1 h2 r l executeStartupCommands_replays [OF h1 h2, of demo_handler "[]"] by simp
qed

text \<open>
  Outside C9: when the \<^verbatim>\<open>EEPROM_SIZE_MAX\<close> bytes hold no NUL, the function replays
  them all and then queues a newline, which it does not execute.
\<close>

lemma startup_loop_unterminated:
  fixes s :: "'w CommandHandler"
  shows "(\<forall>i<length cs. ee (idx + i) = cs ! i) \<Longrightarrow> NUL \<notin> set cs
   \<Longrightarrow> n + length cs = EEPROM_SIZE_MAX \<Longrightarrow>
   startup_loop ee idx n result s w
   = map_option (\<lambda>(r, s', w'). (r, snd (addCommandChar NEWLINE s'), w'))
       (if result = NO_ERROR then replay cs s w else Some (result, s, w))"
proof (induction cs arbitrary: idx n result s w)
  case Nil
  then show ?case
    by (subst startup_loop.simps) simp
next
  case (Cons c cs)
  have c: "ee idx = c" "c \<noteq> NUL"
    using Cons.prems(1,2) by auto
  have n: "\<not> EEPROM_SIZE_MAX \<le> n"
    using Cons.prems(3) by simp
  have IH: "startup_loop ee (Suc idx) (Suc n) result' s' w'
            = map_option (\<lambda>(r, s', w'). (r, snd (addCommandChar NEWLINE s'), w'))
                (if result' = NO_ERROR then replay cs s' w' else Some (result', s', w'))"
    for result' and s' :: "'w CommandHandler" and w'
  proof (rule Cons.IH)
    show "\<forall>i<length cs. ee (Suc idx + i) = cs ! i"
      using Cons.prems(1) by fastforce
    show "NUL \<notin> set cs"
      using Cons.prems(2) by simp
    show "Suc n + length cs = EEPROM_SIZE_MAX"
      using Cons.prems(3) by simp
  qed
  show ?case
    using c n
    by (subst startup_loop.simps) (auto simp: IH Let_def split: option.splits)
qed

lemma executeStartupCommands_unterminated:
  assumes "ee EEPROM_STORED_COMMAND_FLAG_LOCATION = CHR 0x01"
    and "length (stored ee) = EEPROM_SIZE_MAX"
  shows "executeStartupCommands ee s w
         = map_option (\<lambda>(r, s', w'). (r, snd (addCommandChar NEWLINE s'), w'))
             (replay (stored ee) s w)"
proof -
  define mem where "mem = map ee [EEPROM_STORED_COMMAND_LOCATION ..< EEPROM_STORED_COMMAND_LOCATION + EEPROM_SIZE_MAX]"
  have st: "stored ee = takeWhile (\<lambda>c. c \<noteq> NUL) mem"
    by (simp add: stored_def mem_def)
  have "\<forall>i<length (stored ee). ee (EEPROM_STORED_COMMAND_LOCATION + i) = stored ee ! i"
  proof (intro allI impI)
    fix i assume i: "i < length (stored ee)"
    then have "stored ee ! i = mem ! i"
      unfolding st by (rule takeWhile_nth)
    moreover have "i < EEPROM_SIZE_MAX"
      using i assms(2) by simp
    ultimately show "ee (EEPROM_STORED_COMMAND_LOCATION + i) = stored ee ! i"
      by (simp add: mem_def)
  qed
  moreover have "NUL \<notin> set (stored ee)"
    unfolding st by (auto dest: set_takeWhileD)
  ultimately have "startup_loop ee EEPROM_STORED_COMMAND_LOCATION 0 NO_ERROR s w
      = map_option (\<lambda>(r, s', w'). (r, snd (addCommandChar NEWLINE s'), w'))
             (replay (stored ee) s w)"
    using startup_loop_unterminated [of "stored ee" ee EEPROM_STORED_COMMAND_LOCATION 0 NO_ERROR s w]
      assms(2)
    by simp
  then show ?thesis
    using assms(1) by (simp add: executeStartupCommands_def)
qed

end
